theory Spec2Isabelle
  imports Complex_Main "HOL-Library.Word"
begin

section \<open>Whole-file signature verification: \<open>verify_file\<close> of verifier.c\<close>

text \<open>
  The file on disk is a list of bytes; the file system is a partial map from paths to
  files, so that \<open>fopen\<close> fails exactly on an unmapped path. A seek to a negative
  offset fails, a read of bytes that are in the file succeeds; \<open>malloc\<close> is taken to
  succeed. What the function does beyond returning a status is kept as a list of events,
  in program order: the calls of \<open>ui_set_progress\<close>, \<open>SHA_update\<close> and
  \<open>RSA_verify\<close>.

  The headers verifier.h, mincrypt/rsa.h and mincrypt/sha.h are not part of the sources.
  The modulus size \<open>RSANUMBYTES\<close>, the hash function (the digest that \<open>SHA_final\<close>
  returns for the concatenation of all the chunks given to \<open>SHA_update\<close>) and
  \<open>RSA_verify\<close> are parameters of the model. The progress fraction, a \<open>double\<close> in
  the source, is an exact rational here.
\<close>

type_synonym byte = "8 word"

text \<open>Modelled from the spec: the two return codes of verifier.h.\<close>

datatype verify_status = VERIFY_SUCCESS | VERIFY_FAILURE

text \<open>
  The one place where the source can read outside a buffer: the signature pointer
  \<open>eocd + eocd_size - 6 - RSANUMBYTES\<close> lies before \<open>eocd\<close> when the comment is
  shorter than a signature and its footer.
\<close>

datatype fault = Read_before_buffer

datatype 'k event =
    Set_progress rat
  | Sha_update "byte list"
  | Rsa_verify 'k "byte list" "byte list"

definition FOOTER_SIZE :: nat where
  "FOOTER_SIZE = 6"

definition EOCD_HEADER_SIZE :: nat where
  "EOCD_HEADER_SIZE = 22"

definition BUFFER_SIZE :: nat where
  "BUFFER_SIZE = 4096"

text \<open>\<open>fseek(f, -FOOTER_SIZE, SEEK_END)\<close> and the read of the footer.\<close>

definition read_footer :: "byte list \<Rightarrow> byte list" where
  "read_footer bs = drop (length bs - FOOTER_SIZE) bs"

text \<open>\<open>footer[4] + (footer[5] << 8)\<close> and \<open>footer[0] + (footer[1] << 8)\<close>.\<close>

definition comment_size :: "byte list \<Rightarrow> nat" where
  "comment_size footer = unat (footer ! 4) + push_bit 8 (unat (footer ! 5))"

definition signature_start :: "byte list \<Rightarrow> nat" where
  "signature_start footer = unat (footer ! 0) + push_bit 8 (unat (footer ! 1))"

definition eocd_size :: "byte list \<Rightarrow> nat" where
  "eocd_size bs = comment_size (read_footer bs) + EOCD_HEADER_SIZE"

text \<open>\<open>ftell(f) + EOCD_HEADER_SIZE - 2\<close> after the seek to \<open>-eocd_size\<close> from the end.\<close>

definition signed_len :: "byte list \<Rightarrow> nat" where
  "signed_len bs = (length bs - eocd_size bs) + EOCD_HEADER_SIZE - 2"

definition read_eocd :: "byte list \<Rightarrow> byte list" where
  "read_eocd bs = drop (length bs - eocd_size bs) bs"

definition eocd_magic :: "byte list" where
  "eocd_magic = [0x50, 0x4b, 0x05, 0x06]"

text \<open>The loop \<open>for (i = 4; i < eocd_size-3; ++i)\<close>: is the marker found from \<open>i\<close> on?\<close>

function marker_after :: "byte list \<Rightarrow> nat \<Rightarrow> bool" where
  "marker_after eocd i =
     (if i < length eocd - 3
      then (if eocd ! i = 0x50 \<and> eocd ! (i + 1) = 0x4b \<and>
               eocd ! (i + 2) = 0x05 \<and> eocd ! (i + 3) = 0x06
            then True
            else marker_after eocd (i + 1))
      else False)"
  by pat_completeness auto
termination
  by (relation "measure (\<lambda>(eocd, i). length eocd - 3 - i)") auto

text \<open>
  The hashing loop \<open>while (so_far < signed_len)\<close>. The SHA context is the list of the
  bytes hashed so far, \<open>fr\<close> is the source's \<open>frac\<close> and \<open>sz\<close> its \<open>size\<close>. The
  result is \<open>None\<close> after a short read.
\<close>

function hash_loop ::
  "byte list \<Rightarrow> nat \<Rightarrow> nat \<Rightarrow> rat \<Rightarrow> byte list \<Rightarrow> 'k event list \<times> byte list option" where
  "hash_loop bs slen so_far fr ctx =
     (if so_far < slen then
        (let sz = (if slen - so_far < BUFFER_SIZE then slen - so_far else BUFFER_SIZE);
             buffer = take sz (drop so_far bs)
         in if length buffer \<noteq> sz then ([], None)
            else
              (let so_far' = so_far + sz;
                   f = of_nat so_far' / of_nat slen;
                   report = (f > fr + 2 / 100 \<or> sz = so_far');
                   (evs, r) = hash_loop bs slen so_far' (if report then f else fr) (ctx @ buffer)
               in (Sha_update buffer # (if report then [Set_progress f] else []) @ evs, r)))
      else ([], Some ctx))"
  by pat_completeness auto
termination
  by (relation "measure (\<lambda>(bs, slen, so_far, fr, ctx). slen - so_far)")
     (auto simp: BUFFER_SIZE_def)

text \<open>The signature \<open>eocd + eocd_size - 6 - RSANUMBYTES\<close>, of \<open>RSANUMBYTES\<close> bytes.\<close>

definition signature_of :: "nat \<Rightarrow> byte list \<Rightarrow> byte list option" where
  "signature_of RSANUMBYTES eocd =
     (if length eocd < 6 + RSANUMBYTES then None
      else Some (take RSANUMBYTES (drop (length eocd - 6 - RSANUMBYTES) eocd)))"

text \<open>The loop over the keys: \<open>for (i = 0; i < numKeys; ++i)\<close>.\<close>

fun try_keys ::
  "('k \<Rightarrow> byte list \<Rightarrow> byte list \<Rightarrow> bool) \<Rightarrow> 'k list \<Rightarrow> byte list option \<Rightarrow> byte list \<Rightarrow>
   'k event list \<times> (fault + verify_status)" where
  "try_keys RSA_verify [] sig sha1 = ([], Inr VERIFY_FAILURE)"
| "try_keys RSA_verify (k # ks) None sha1 = ([], Inl Read_before_buffer)"
| "try_keys RSA_verify (k # ks) (Some s) sha1 =
     (if RSA_verify k s sha1 then ([Rsa_verify k s sha1], Inr VERIFY_SUCCESS)
      else (let (evs, r) = try_keys RSA_verify ks (Some s) sha1
            in (Rsa_verify k s sha1 # evs, r)))"

definition verify_file ::
  "nat \<Rightarrow> (byte list \<Rightarrow> byte list) \<Rightarrow> ('k \<Rightarrow> byte list \<Rightarrow> byte list \<Rightarrow> bool) \<Rightarrow>
   (string \<rightharpoonup> byte list) \<Rightarrow> string \<Rightarrow> 'k list \<Rightarrow> 'k event list \<times> (fault + verify_status)" where
  "verify_file RSANUMBYTES SHA RSA_verify fs path pKeys =
     (case fs path of
        None \<Rightarrow> ([Set_progress 0], Inr VERIFY_FAILURE)
      | Some bs \<Rightarrow>
          if length bs < FOOTER_SIZE then ([Set_progress 0], Inr VERIFY_FAILURE)
          else
            (let footer = read_footer bs in
             if footer ! 2 \<noteq> 0xff \<or> footer ! 3 \<noteq> 0xff
             then ([Set_progress 0], Inr VERIFY_FAILURE)
             else if int (signature_start footer) - int FOOTER_SIZE < int RSANUMBYTES
             then ([Set_progress 0], Inr VERIFY_FAILURE)
             else if length bs < eocd_size bs
             then ([Set_progress 0], Inr VERIFY_FAILURE)
             else
               (let eocd = read_eocd bs in
                if eocd ! 0 \<noteq> 0x50 \<or> eocd ! 1 \<noteq> 0x4b \<or> eocd ! 2 \<noteq> 0x05 \<or> eocd ! 3 \<noteq> 0x06
                then ([Set_progress 0], Inr VERIFY_FAILURE)
                else if marker_after eocd 4
                then ([Set_progress 0], Inr VERIFY_FAILURE)
                else
                  (case hash_loop bs (signed_len bs) 0 (- 1) [] of
                     (evs, None) \<Rightarrow> (Set_progress 0 # evs, Inr VERIFY_FAILURE)
                   | (evs, Some ctx) \<Rightarrow>
                       (let (evs', r) =
                              try_keys RSA_verify pKeys (signature_of RSANUMBYTES eocd) (SHA ctx)
                        in (Set_progress 0 # evs @ evs', r))))))"


text \<open>
  The tests of \<open>verify_file\<close> on the footer and on the end-of-central-directory record,
  collected: the file is long enough for the footer, the footer has its two \<open>0xff\<close>
  bytes, the signature block can hold a signature, the file is long enough for the
  record and the comment, the record begins with the marker and the marker does not
  occur again.
\<close>

definition footer_checks :: "nat \<Rightarrow> byte list \<Rightarrow> bool" where
  "footer_checks RSANUMBYTES bs =
     (FOOTER_SIZE \<le> length bs \<and>
      read_footer bs ! 2 = 0xff \<and> read_footer bs ! 3 = 0xff \<and>
      int RSANUMBYTES \<le> int (signature_start (read_footer bs)) - int FOOTER_SIZE \<and>
      eocd_size bs \<le> length bs \<and>
      read_eocd bs ! 0 = 0x50 \<and> read_eocd bs ! 1 = 0x4b \<and>
      read_eocd bs ! 2 = 0x05 \<and> read_eocd bs ! 3 = 0x06 \<and>
      \<not> marker_after (read_eocd bs) 4)"

text \<open>The values given to \<open>ui_set_progress\<close>, in order, and the calls of \<open>RSA_verify\<close>.\<close>

fun progress_of :: "'k event list \<Rightarrow> rat list" where
  "progress_of [] = []"
| "progress_of (Set_progress p # evs) = p # progress_of evs"
| "progress_of (e # evs) = progress_of evs"

fun rsa_calls :: "'k event list \<Rightarrow> ('k \<times> byte list \<times> byte list) list" where
  "rsa_calls [] = []"
| "rsa_calls (Rsa_verify k s d # evs) = (k, s, d) # rsa_calls evs"
| "rsa_calls (e # evs) = rsa_calls evs"

fun sha_input :: "'k event list \<Rightarrow> byte list" where
  "sha_input [] = []"
| "sha_input (Sha_update buf # evs) = buf @ sha_input evs"
| "sha_input (e # evs) = sha_input evs"

section \<open>JAR-style verification: \<open>verify_jar_signature\<close> of verifier.c\<close>

text \<open>
  Modelled from the spec: the archive reader (minzip) is not part of the sources. An
  archive is the list of its entries in index order and an entry pointer is an index.
  An entry has a name, an uncompressed length, the outcome of the CRC check
  (\<open>mzIsZipEntryIntact\<close>), the chunks that \<open>mzProcessZipEntryContents\<close> hands to its
  callback and whether that call then reports success. \<open>mzFindZipEntry\<close> returns the
  first entry of the given name. \<open>mzReadZipEntry\<close> copies the same chunks into the
  caller's buffer and succeeds when the stream does and fills the buffer exactly.
\<close>

record zip_entry =
  fileName :: string
  uncompLen :: nat
  intact :: bool
  chunks :: "string list"
  stream_ok :: bool

type_synonym zip_archive = "zip_entry list"

definition mzFindZipEntry :: "zip_archive \<Rightarrow> string \<Rightarrow> nat option" where
  "mzFindZipEntry pArchive nm =
     (case filter (\<lambda>i. fileName (pArchive ! i) = nm) [0..<length pArchive] of
        [] \<Rightarrow> None
      | i # _ \<Rightarrow> Some i)"

definition mzReadZipEntry :: "zip_entry \<Rightarrow> string option" where
  "mzReadZipEntry e =
     (if stream_ok e \<and> length (concat (chunks e)) = uncompLen e
      then Some (concat (chunks e)) else None)"

subsection \<open>C strings\<close>

text \<open>
  A buffer read as a C string ends before its first NUL byte. \<open>strncmp\<close> and
  \<open>strncasecmp\<close> return 0 when the first \<open>n\<close> characters of the two strings agree;
  a string shorter than \<open>n\<close> agrees only with a string of the same length. An entry
  name (not terminated in the archive) is compared in the same way: the bytes after
  its end count as a mismatch.
\<close>

definition c_str :: "string \<Rightarrow> string" where
  "c_str buf = takeWhile (\<lambda>c. c \<noteq> CHR 0x00) buf"

definition tolower :: "char \<Rightarrow> char" where
  "tolower c =
     (if 65 \<le> (of_char c :: nat) \<and> (of_char c :: nat) \<le> 90
      then char_of ((of_char c :: nat) + 32) else c)"

definition strncmp_eq :: "string \<Rightarrow> string \<Rightarrow> nat \<Rightarrow> bool" where
  "strncmp_eq a b n = (take n (c_str a) = take n (c_str b))"

definition strncasecmp_eq :: "string \<Rightarrow> string \<Rightarrow> nat \<Rightarrow> bool" where
  "strncasecmp_eq a b n = (map tolower (take n (c_str a)) = map tolower (take n (c_str b)))"

definition is_eol :: "char \<Rightarrow> bool" where
  "is_eol c = (c = CHR 0x0D \<or> c = CHR 0x0A)"

text \<open>
  All the tokens that the calls \<open>strtok_r(buf, "\r\n", &save)\<close>,
  \<open>strtok_r(NULL, "\r\n", &save)\<close>, ... return, in order.
\<close>

function strtok_r :: "string \<Rightarrow> string list" where
  "strtok_r s =
     (case dropWhile is_eol s of
        [] \<Rightarrow> []
      | c # cs \<Rightarrow>
          takeWhile (\<lambda>x. \<not> is_eol x) (c # cs) # strtok_r (dropWhile (\<lambda>x. \<not> is_eol x) (c # cs)))"
  by pat_completeness auto
termination
proof (relation "measure length")
  show "wf (measure length)" by simp
next
  fix s :: string and c cs
  assume a: "dropWhile is_eol s = c # cs"
  have "\<not> is_eol c" using a by (metis dropWhile_eq_Cons_conv)
  then have "length (dropWhile (\<lambda>x. \<not> is_eol x) (c # cs)) \<le> length cs"
    by (simp add: length_dropWhile_le)
  also have "length cs < length (dropWhile is_eol s)" using a by simp
  also have "\<dots> \<le> length s" by (rule length_dropWhile_le)
  finally show "(dropWhile (\<lambda>x. \<not> is_eol x) (c # cs), s) \<in> measure length" by simp
qed

subsection \<open>Reading and hashing entries\<close>

text \<open>\<open>slurpEntry\<close>: the contents of an entry (the terminating NUL is left to \<open>c_str\<close>).\<close>

definition slurpEntry :: "zip_archive \<Rightarrow> nat \<Rightarrow> string option" where
  "slurpEntry pArchive pEntry =
     (if \<not> intact (pArchive ! pEntry) then None
      else mzReadZipEntry (pArchive ! pEntry))"

text \<open>
  \<open>updateHash\<close> over the chunks of an entry, with \<open>doneBytes \<noteq> NULL\<close>: the values given
  to \<open>ui_set_progress\<close> and the new \<open>*doneBytes\<close>, an \<open>unsigned\<close> of 32 bits.
\<close>

fun updateHash :: "nat \<Rightarrow> nat \<Rightarrow> string list \<Rightarrow> rat list \<times> nat" where
  "updateHash totalBytes doneBytes [] = ([], doneBytes)"
| "updateHash totalBytes doneBytes (dat # rest) =
     (let done' = (doneBytes + length dat) mod 2 ^ 32;
          (ps, d) = updateHash totalBytes done' rest
      in ((if totalBytes > 0 then [of_nat done' / of_nat totalBytes] else []) @ ps, d))"

text \<open>\<open>digestEntry\<close> with \<open>doneBytes = NULL\<close>, and with a progress counter.\<close>

definition digestEntry :: "(string \<Rightarrow> string) \<Rightarrow> zip_archive \<Rightarrow> nat \<Rightarrow> string option" where
  "digestEntry SHA pArchive pEntry =
     (if stream_ok (pArchive ! pEntry) then Some (SHA (concat (chunks (pArchive ! pEntry))))
      else None)"

definition digestEntry_progress ::
  "(string \<Rightarrow> string) \<Rightarrow> zip_archive \<Rightarrow> nat \<Rightarrow> nat \<Rightarrow> nat \<Rightarrow> (rat list \<times> nat) \<times> string option" where
  "digestEntry_progress SHA pArchive pEntry doneBytes totalBytes =
     (updateHash totalBytes doneBytes (chunks (pArchive ! pEntry)),
      digestEntry SHA pArchive pEntry)"


subsection \<open>\<open>verifySignature\<close>\<close>

text \<open>
  The body of the loop for one entry: the \<open>.SF\<close> entry when entry \<open>i\<close> is a
  \<open>META-INF/*.RSA\<close> file whose signature of the sibling \<open>.SF\<close> file verifies with one
  of the keys, \<open>None\<close> where the source continues with the next entry. The name of the
  sibling is built with \<open>strncpy\<close> and \<open>strcpy\<close> and read as a C string.
\<close>

definition verifySignature_entry ::
  "nat \<Rightarrow> (string \<Rightarrow> string) \<Rightarrow> ('k \<Rightarrow> string \<Rightarrow> string \<Rightarrow> bool) \<Rightarrow>
   zip_archive \<Rightarrow> 'k list \<Rightarrow> nat \<Rightarrow> nat option" where
  "verifySignature_entry RSANUMBYTES SHA RSA_verify pArchive pKeys i =
     (let rsaName = fileName (pArchive ! i);
          rsaLen = uncompLen (pArchive ! i)
      in if rsaLen \<ge> RSANUMBYTES \<and> length rsaName > 10 \<and>
            strncmp_eq rsaName ''META-INF/'' 9 \<and>
            strncmp_eq (drop (length rsaName - 4) rsaName) ''.RSA'' 4
         then
           (let sfName = c_str (take (length rsaName - 4) rsaName @ ''.SF'') in
            case mzFindZipEntry pArchive sfName of
              None \<Rightarrow> None
            | Some sfEntry \<Rightarrow>
                (case digestEntry SHA pArchive sfEntry of
                   None \<Rightarrow> None
                 | Some sfDigest \<Rightarrow>
                     (case slurpEntry pArchive i of
                        None \<Rightarrow> None
                      | Some rsaBuf \<Rightarrow>
                          (let sig = take RSANUMBYTES (drop (rsaLen - RSANUMBYTES) rsaBuf) in
                           if list_ex (\<lambda>k. RSA_verify k sig sfDigest) pKeys
                           then Some sfEntry else None))))
         else None)"

text \<open>The loop \<open>for (i = 0; i < mzZipEntryCount(pArchive); ++i)\<close>, from \<open>i\<close> on.\<close>

function verifySignature_from ::
  "nat \<Rightarrow> (string \<Rightarrow> string) \<Rightarrow> ('k \<Rightarrow> string \<Rightarrow> string \<Rightarrow> bool) \<Rightarrow>
   zip_archive \<Rightarrow> 'k list \<Rightarrow> nat \<Rightarrow> nat option" where
  "verifySignature_from RSANUMBYTES SHA RSA_verify pArchive pKeys i =
     (if i < length pArchive then
        (case verifySignature_entry RSANUMBYTES SHA RSA_verify pArchive pKeys i of
           Some sfEntry \<Rightarrow> Some sfEntry
         | None \<Rightarrow> verifySignature_from RSANUMBYTES SHA RSA_verify pArchive pKeys (i + 1))
      else None)"
  by pat_completeness auto
termination
  by (relation "measure (\<lambda>(n, h, r, pArchive, ks, i). length pArchive - i)") auto

definition verifySignature ::
  "nat \<Rightarrow> (string \<Rightarrow> string) \<Rightarrow> ('k \<Rightarrow> string \<Rightarrow> string \<Rightarrow> bool) \<Rightarrow>
   zip_archive \<Rightarrow> 'k list \<Rightarrow> nat option" where
  "verifySignature RSANUMBYTES SHA RSA_verify pArchive pKeys =
     verifySignature_from RSANUMBYTES SHA RSA_verify pArchive pKeys 0"

subsection \<open>\<open>verifyManifest\<close>\<close>

definition SHA_DIGEST_SIZE :: nat where
  "SHA_DIGEST_SIZE = 20"

text \<open>
  \<open>b64_pton\<close> of the C library is a parameter: for a source string and the size of the
  target buffer it gives the returned count (negative on an error) and the bytes written.
  The loop over the lines of the \<open>.SF\<close> file stops at the first line that begins with the
  header, whatever its digest.
\<close>

definition verifyManifest ::
  "(string \<Rightarrow> nat \<Rightarrow> int \<times> string) \<Rightarrow> (string \<Rightarrow> string) \<Rightarrow> zip_archive \<Rightarrow> nat \<Rightarrow> nat option" where
  "verifyManifest b64_pton SHA pArchive sfEntry =
     (case slurpEntry pArchive sfEntry of
        None \<Rightarrow> None
      | Some sfBuf \<Rightarrow>
          (case find (\<lambda>line. strncasecmp_eq ''SHA1-Digest-Manifest: '' line 22)
                     (strtok_r (c_str sfBuf)) of
             None \<Rightarrow> None
           | Some line \<Rightarrow>
               (let (n, expected) = b64_pton (drop 22 line) (SHA_DIGEST_SIZE + 3) in
                if n \<noteq> int SHA_DIGEST_SIZE then None
                else
                  (case mzFindZipEntry pArchive ''META-INF/MANIFEST.MF'' of
                     None \<Rightarrow> None
                   | Some mfEntry \<Rightarrow>
                       (case digestEntry SHA pArchive mfEntry of
                          None \<Rightarrow> None
                        | Some actual \<Rightarrow>
                            if take SHA_DIGEST_SIZE expected \<noteq> take SHA_DIGEST_SIZE actual
                            then None else Some mfEntry)))))"


subsection \<open>\<open>verifyArchive\<close>\<close>

text \<open>
  The test of the first loop: entry \<open>i\<close> gets its flag set unless it is the manifest, a
  directory, or a \<open>.RSA\<close> or \<open>.SF\<close> file under \<open>META-INF/\<close>. The suffixes are compared
  only after the prefix of nine characters has matched, so the name is long enough.
\<close>

definition needs_digest :: "zip_archive \<Rightarrow> nat \<Rightarrow> nat \<Rightarrow> bool" where
  "needs_digest pArchive mfEntry i =
     (let fn = fileName (pArchive ! i);
          len = uncompLen (pArchive ! i)
      in if i = mfEntry then False
         else if length fn > 0 \<and> fn ! (length fn - 1) = CHR ''/'' \<and> len = 0 then False
         else if strncasecmp_eq fn ''META-INF/'' 9 \<and>
                 (strncasecmp_eq (drop (length fn - 4) fn) ''.RSA'' 4 \<or>
                  strncasecmp_eq (drop (length fn - 3) fn) ''.SF'' 3) then False
         else True)"

text \<open>
  The first loop, over all the entries: the flags (all false after \<open>calloc\<close>) and
  \<open>totalBytes\<close>, an \<open>unsigned\<close> of 32 bits.
\<close>

definition mark_entries :: "zip_archive \<Rightarrow> nat \<Rightarrow> bool list \<times> nat" where
  "mark_entries pArchive mfEntry =
     foldl (\<lambda>(unv, totalBytes) i.
              if needs_digest pArchive mfEntry i
              then (unv[i := True], (totalBytes + uncompLen (pArchive ! i)) mod 2 ^ 32)
              else (unv, totalBytes))
           (replicate (length pArchive) False, 0) [0..<length pArchive]"

text \<open>
  The state of the loop over the lines of the manifest: the flags, \<open>doneBytes\<close>, the
  pending \<open>name\<close> (\<open>None\<close> for \<open>NULL\<close>), the values given to \<open>ui_set_progress\<close> so far,
  and one record for each \<open>LOGI("Verified ...")\<close>: the name of the stanza, the text of
  its digest and the index of its entry.
\<close>

record manifest_state =
  unverified :: "bool list"
  doneBytes :: nat
  name :: "string option"
  progress :: "rat list"
  verified :: "(string \<times> string \<times> nat) list"

text \<open>
  One line of the manifest; the flag returned is true where the source leaves the loop
  with \<open>break\<close>. A continuation line with no pending name is logged and then appended
  all the same: \<open>asprintf\<close> prints the \<open>NULL\<close> name as \<open>(null)\<close>.
\<close>

definition manifest_line ::
  "(string \<Rightarrow> nat \<Rightarrow> int \<times> string) \<Rightarrow> (string \<Rightarrow> string) \<Rightarrow> zip_archive \<Rightarrow> nat \<Rightarrow>
   manifest_state \<Rightarrow> string \<Rightarrow> manifest_state \<times> bool" where
  "manifest_line b64_pton SHA pArchive totalBytes st line =
     (if strncasecmp_eq line ''Name: '' 6 then
        (case name st of
           Some _ \<Rightarrow> (st, True)
         | None \<Rightarrow> (st\<lparr>name := Some (drop 6 line)\<rparr>, False))
      else if strncasecmp_eq line '' '' 1 then
        (let tail = drop 1 line in
         (st\<lparr>name := Some ((case name st of None \<Rightarrow> ''(null)'' | Some nm \<Rightarrow> nm) @ tail)\<rparr>,
          False))
      else if strncasecmp_eq line ''SHA1-Digest: '' 13 then
        (let base64 = drop 13 line in
         case name st of
           None \<Rightarrow> (st, True)
         | Some nm \<Rightarrow>
             (case mzFindZipEntry pArchive nm of
                None \<Rightarrow> (st, True)
              | Some entry \<Rightarrow>
                  if \<not> intact (pArchive ! entry) then (st, True)
                  else if \<not> unverified st ! entry then (st, True)
                  else
                    (let (n, expected) = b64_pton base64 (SHA_DIGEST_SIZE + 3) in
                     if n \<noteq> int SHA_DIGEST_SIZE then (st, True)
                     else
                       (let ((ps, done'), r) =
                              digestEntry_progress SHA pArchive entry (doneBytes st) totalBytes;
                            st' = st\<lparr>doneBytes := done', progress := progress st @ ps\<rparr>
                        in case r of
                             None \<Rightarrow> (st', True)
                           | Some actual \<Rightarrow>
                               if take SHA_DIGEST_SIZE expected \<noteq> take SHA_DIGEST_SIZE actual
                               then (st', True)
                               else
                                 (st'\<lparr>unverified := (unverified st)[entry := False],
                                      name := None,
                                      verified := verified st @ [(nm, base64, entry)]\<rparr>,
                                  False)))))
      else (st, False))"

fun manifest_loop ::
  "(string \<Rightarrow> nat \<Rightarrow> int \<times> string) \<Rightarrow> (string \<Rightarrow> string) \<Rightarrow> zip_archive \<Rightarrow> nat \<Rightarrow>
   manifest_state \<Rightarrow> string list \<Rightarrow> manifest_state \<times> bool" where
  "manifest_loop b64_pton SHA pArchive totalBytes st [] = (st, False)"
| "manifest_loop b64_pton SHA pArchive totalBytes st (line # rest) =
     (case manifest_line b64_pton SHA pArchive totalBytes st line of
        (st', True) \<Rightarrow> (st', True)
      | (st', False) \<Rightarrow> manifest_loop b64_pton SHA pArchive totalBytes st' rest)"

definition no_state :: manifest_state where
  "no_state = \<lparr>unverified = [], doneBytes = 0, name = None, progress = [], verified = []\<rparr>"

text \<open>
  \<open>verifyArchive\<close>: the final state of the loop over the manifest and the value
  returned. The last loop looks for a flag that is still set.
\<close>

definition verifyArchive ::
  "(string \<Rightarrow> nat \<Rightarrow> int \<times> string) \<Rightarrow> (string \<Rightarrow> string) \<Rightarrow> zip_archive \<Rightarrow> nat \<Rightarrow>
   manifest_state \<times> bool" where
  "verifyArchive b64_pton SHA pArchive mfEntry =
     (case slurpEntry pArchive mfEntry of
        None \<Rightarrow> (no_state, False)
      | Some mfBuf \<Rightarrow>
          (let (unv, totalBytes) = mark_entries pArchive mfEntry;
               (st, broke) =
                 manifest_loop b64_pton SHA pArchive totalBytes
                   \<lparr>unverified = unv, doneBytes = 0, name = None, progress = [], verified = []\<rparr>
                   (strtok_r (c_str mfBuf))
           in (st, if broke then False
                   else if list_ex (\<lambda>b. b) (unverified st) then False
                   else True)))"

definition verify_jar_signature ::
  "nat \<Rightarrow> (string \<Rightarrow> string) \<Rightarrow> ('k \<Rightarrow> string \<Rightarrow> string \<Rightarrow> bool) \<Rightarrow>
   (string \<Rightarrow> nat \<Rightarrow> int \<times> string) \<Rightarrow> zip_archive \<Rightarrow> 'k list \<Rightarrow> manifest_state \<times> bool" where
  "verify_jar_signature RSANUMBYTES SHA RSA_verify b64_pton pArchive pKeys =
     (case verifySignature RSANUMBYTES SHA RSA_verify pArchive pKeys of
        None \<Rightarrow> (no_state, False)
      | Some sfEntry \<Rightarrow>
          (case verifyManifest b64_pton SHA pArchive sfEntry of
             None \<Rightarrow> (no_state, False)
           | Some mfEntry \<Rightarrow> verifyArchive b64_pton SHA pArchive mfEntry))"

section \<open>Example inputs\<close>

text \<open>
  Small stand-ins for the cryptographic primitives, for the examples only: a digest that
  is the length of the data in one byte, and a signature check that accepts the digest
  padded at the front with the key byte to 256 bytes.
\<close>

definition toy_sha :: "byte list \<Rightarrow> byte list" where
  "toy_sha bs = [of_nat (length bs)]"

definition toy_rsa :: "byte \<Rightarrow> byte list \<Rightarrow> byte list \<Rightarrow> bool" where
  "toy_rsa k s dig = (s = replicate (256 - length dig) k @ dig)"

text \<open>
  An archive with no entries: the end-of-central-directory record, then the comment,
  which is some padding, the signature of 256 bytes and the footer.
\<close>

definition signed_zip :: "byte list \<Rightarrow> byte list \<Rightarrow> byte list \<Rightarrow> byte list" where
  "signed_zip clen pad footer =
     [0x50, 0x4b, 0x05, 0x06] @ replicate 16 0 @ clen @ pad @ replicate 255 0xAA @ [20] @ footer"

definition good_file :: "byte list" where
  "good_file = signed_zip [0x06, 0x01] [] [0x06, 0x01, 0xff, 0xff, 0x06, 0x01]"

definition hostile_file :: "byte list" where
  "hostile_file =
     signed_zip [0x0a, 0x01] [0x50, 0x4b, 0x05, 0x06] [0x06, 0x01, 0xff, 0xff, 0x0a, 0x01]"


definition unmarked_file :: "byte list" where
  "unmarked_file = signed_zip [0x06, 0x01] [] [0x06, 0x01, 0xff, 0xfe, 0x06, 0x01]"

definition short_file :: "byte list" where
  "short_file = signed_zip [0x06, 0x01] [] [0x05, 0x01, 0xff, 0xff, 0x06, 0x01]"

text \<open>
  For the archives: a digest of twenty characters that depends on the length of the data,
  a decoder that is the identity, and the same signature check on characters.
\<close>

definition jar_sha :: "string \<Rightarrow> string" where
  "jar_sha s = replicate 19 (CHR ''x'') @ [char_of (65 + length s mod 26)]"

definition jar_b64 :: "string \<Rightarrow> nat \<Rightarrow> int \<times> string" where
  "jar_b64 s n = (if length s \<le> n then (int (length s), s) else (- 1, []))"

definition jar_rsa :: "char \<Rightarrow> string \<Rightarrow> string \<Rightarrow> bool" where
  "jar_rsa k s dig = (s = replicate (256 - length dig) k @ dig)"

definition mk_entry :: "string \<Rightarrow> string \<Rightarrow> zip_entry" where
  "mk_entry nm dat =
     \<lparr>fileName = nm, uncompLen = length dat, intact = True, chunks = [dat], stream_ok = True\<rparr>"

definition crlf :: string where
  "crlf = [CHR 0x0D, CHR 0x0A]"

definition sf_text :: "string \<Rightarrow> string" where
  "sf_text mf = ''SHA1-Digest-Manifest: '' @ jar_sha mf @ crlf"

text \<open>
  A signed archive with the manifest \<open>mf\<close>, one file \<open>a\<close> and one directory, signed
  with the key \<open>k\<close>.
\<close>

definition jar_of :: "string \<Rightarrow> zip_archive" where
  "jar_of mf =
     [mk_entry ''META-INF/MANIFEST.MF'' mf,
      mk_entry ''META-INF/CERT.SF'' (sf_text mf),
      mk_entry ''META-INF/CERT.RSA'' (replicate 236 (CHR ''k'') @ jar_sha (sf_text mf)),
      mk_entry ''a'' ''hello'',
      mk_entry ''dir/'' []]"

definition mf_text :: string where
  "mf_text = ''Name: a'' @ crlf @ ''SHA1-Digest: '' @ jar_sha ''hello'' @ crlf"

definition mf_pending :: string where
  "mf_pending = mf_text @ ''Name: ghost'' @ crlf"

section \<open>Properties of \<open>verify_file\<close>\<close>

declare hash_loop.simps [simp del]
declare marker_after.simps [simp del]

lemma hash_loop_done:
  "\<not> so_far < slen \<Longrightarrow> hash_loop bs slen so_far fr ctx = ([], Some ctx)"
  by (subst hash_loop.simps) simp

lemma hash_loop_step:
  fixes bs ctx :: "byte list" and slen so_far :: nat and fr :: rat
    and sz buffer f report rest
  defines "sz \<equiv> (if slen - so_far < BUFFER_SIZE then slen - so_far else BUFFER_SIZE)"
    and "buffer \<equiv> take sz (drop so_far bs)"
    and "f \<equiv> of_nat (so_far + sz) / of_nat slen"
    and "report \<equiv> (f > fr + 2 / 100 \<or> sz = so_far + sz)"
    and "rest \<equiv> (hash_loop bs slen (so_far + sz) (if report then f else fr) (ctx @ buffer)
                  :: 'k event list \<times> byte list option)"
  assumes "so_far < slen"
  shows "hash_loop bs slen so_far fr ctx =
         (if length buffer \<noteq> sz then ([], None)
          else (Sha_update buffer # (if report then [Set_progress f] else []) @ fst rest,
                snd rest))"
proof -
  have "hash_loop bs slen so_far fr ctx =
        (if length buffer \<noteq> sz then ([], None)
         else (case rest of (evs, r) \<Rightarrow>
                 (Sha_update buffer # (if report then [Set_progress f] else []) @ evs, r)))"
    using assms(6)
    by (subst hash_loop.simps)
       (simp only: Let_def sz_def buffer_def f_def report_def rest_def if_True)
  then show ?thesis by (simp only: split_beta)
qed

lemma hash_loop_ctx:
  "so_far \<le> slen \<Longrightarrow> slen \<le> length bs \<Longrightarrow>
   snd (hash_loop bs slen so_far fr ctx :: 'k event list \<times> byte list option) =
   Some (ctx @ take (slen - so_far) (drop so_far bs))"
proof (induction bs slen so_far fr ctx rule: hash_loop.induct)
  case (1 bs slen so_far fr ctx)
  show ?case
  proof (cases "so_far < slen")
    case False
    then show ?thesis using "1.prems" by (simp add: hash_loop_done)
  next
    case True
    define sz where "sz = (if slen - so_far < BUFFER_SIZE then slen - so_far else BUFFER_SIZE)"
    define buffer where "buffer = take sz (drop so_far bs)"
    define f :: rat where "f = of_nat (so_far + sz) / of_nat slen"
    define report where "report = (f > fr + 2 / 100 \<or> sz = so_far + sz)"
    have sz: "so_far + sz \<le> slen" using True by (auto simp: sz_def)
    have len: "length buffer = sz" using sz "1.prems" by (simp add: buffer_def)
    have ih: "snd (hash_loop bs slen (so_far + sz) (if report then f else fr) (ctx @ buffer)
                    :: 'k event list \<times> byte list option) =
              Some ((ctx @ buffer) @ take (slen - (so_far + sz)) (drop (so_far + sz) bs))"
      by (rule "1.IH" [OF True sz_def buffer_def _ refl f_def report_def])
         (use len sz "1.prems" in simp_all)
    have cat: "buffer @ take (slen - (so_far + sz)) (drop (so_far + sz) bs) =
               take (slen - so_far) (drop so_far bs)"
    proof -
      have "take (sz + (slen - (so_far + sz))) (drop so_far bs) =
            take sz (drop so_far bs) @ take (slen - (so_far + sz)) (drop sz (drop so_far bs))"
        by (rule take_add)
      moreover have "sz + (slen - (so_far + sz)) = slen - so_far" using sz by simp
      ultimately show ?thesis by (simp add: buffer_def add.commute)
    qed
    have "snd (hash_loop bs slen so_far fr ctx :: 'k event list \<times> byte list option) =
          snd (hash_loop bs slen (so_far + sz) (if report then f else fr) (ctx @ buffer)
                 :: 'k event list \<times> byte list option)"
      using len
      by (simp only: hash_loop_step [OF True] sz_def [symmetric] buffer_def [symmetric]
            f_def [symmetric] report_def [symmetric]) simp
    then show ?thesis using ih cat by simp
  qed
qed

lemma try_keys_Some:
  "snd (try_keys R ks (Some s) d) =
   Inr (if list_ex (\<lambda>k. R k s d) ks then VERIFY_SUCCESS else VERIFY_FAILURE)"
  by (induction ks) (auto simp: split_beta)

lemma try_keys_None:
  "snd (try_keys R ks None d) = (if ks = [] then Inr VERIFY_FAILURE else Inl Read_before_buffer)"
  by (cases ks) auto

lemma marker_after_iff:
  "marker_after eocd i \<longleftrightarrow>
   (\<exists>j. i \<le> j \<and> j < length eocd - 3 \<and> eocd ! j = 0x50 \<and> eocd ! (j + 1) = 0x4b \<and>
        eocd ! (j + 2) = 0x05 \<and> eocd ! (j + 3) = 0x06)"
proof (induction eocd i rule: marker_after.induct)
  case (1 eocd i)
  show ?case
  proof (cases "i < length eocd - 3")
    case False
    then show ?thesis by (subst marker_after.simps) auto
  next
    case True
    show ?thesis
    proof (cases "eocd ! i = 0x50 \<and> eocd ! (i + 1) = 0x4b \<and> eocd ! (i + 2) = 0x05 \<and> eocd ! (i + 3) = 0x06")
      case hit: True
      then show ?thesis using True by (subst marker_after.simps) auto
    next
      case miss: False
      have "marker_after eocd i = marker_after eocd (i + 1)"
        using True miss by (subst marker_after.simps) auto
      also have "\<dots> \<longleftrightarrow> (\<exists>j. i + 1 \<le> j \<and> j < length eocd - 3 \<and> eocd ! j = 0x50 \<and>
           eocd ! (j + 1) = 0x4b \<and> eocd ! (j + 2) = 0x05 \<and> eocd ! (j + 3) = 0x06)"
        using "1.IH" [OF True miss] .
      also have "\<dots> \<longleftrightarrow> (\<exists>j. i \<le> j \<and> j < length eocd - 3 \<and> eocd ! j = 0x50 \<and>
           eocd ! (j + 1) = 0x4b \<and> eocd ! (j + 2) = 0x05 \<and> eocd ! (j + 3) = 0x06)"
      proof
        assume "\<exists>j. i + 1 \<le> j \<and> j < length eocd - 3 \<and> eocd ! j = 0x50 \<and>
           eocd ! (j + 1) = 0x4b \<and> eocd ! (j + 2) = 0x05 \<and> eocd ! (j + 3) = 0x06"
        then show "\<exists>j. i \<le> j \<and> j < length eocd - 3 \<and> eocd ! j = 0x50 \<and>
           eocd ! (j + 1) = 0x4b \<and> eocd ! (j + 2) = 0x05 \<and> eocd ! (j + 3) = 0x06"
          by (meson add_leD1)
      next
        assume "\<exists>j. i \<le> j \<and> j < length eocd - 3 \<and> eocd ! j = 0x50 \<and>
           eocd ! (j + 1) = 0x4b \<and> eocd ! (j + 2) = 0x05 \<and> eocd ! (j + 3) = 0x06"
        then obtain j where j: "i \<le> j" "j < length eocd - 3" "eocd ! j = 0x50"
          "eocd ! (j + 1) = 0x4b" "eocd ! (j + 2) = 0x05" "eocd ! (j + 3) = 0x06" by blast
        have "j \<noteq> i" using miss j by auto
        then have "i + 1 \<le> j" using j by simp
        then show "\<exists>j. i + 1 \<le> j \<and> j < length eocd - 3 \<and> eocd ! j = 0x50 \<and>
           eocd ! (j + 1) = 0x4b \<and> eocd ! (j + 2) = 0x05 \<and> eocd ! (j + 3) = 0x06"
          using j by blast
      qed
      finally show ?thesis .
    qed
  qed
qed

lemma take4_nth:
  "i + 4 \<le> length xs \<Longrightarrow>
   take 4 (drop i xs) = [xs ! i, xs ! (i + 1), xs ! (i + 2), xs ! (i + 3)]"
proof -
  assume a: "i + 4 \<le> length xs"
  define ys where "ys = drop i xs"
  have l: "4 \<le> length ys" using a by (simp add: ys_def)
  have n: "ys ! k = xs ! (i + k)" if "k < 4" for k using a that by (simp add: ys_def)
  have "take 4 ys = [ys ! 0, ys ! 1, ys ! 2, ys ! 3]"
  proof -
    from l obtain a b c d r where "ys = a # b # c # d # r"
      by (auto simp: numeral_eq_Suc Suc_le_length_iff)
    then show ?thesis by simp
  qed
  then show ?thesis using n [of 0] n [of 1] n [of 2] n [of 3] by (simp add: ys_def)
qed

lemma take4_magic:
  "i + 4 \<le> length xs \<Longrightarrow>
   take 4 (drop i xs) = eocd_magic \<longleftrightarrow>
   (xs ! i = 0x50 \<and> xs ! (i + 1) = 0x4b \<and> xs ! (i + 2) = 0x05 \<and> xs ! (i + 3) = 0x06)"
  by (simp add: take4_nth eocd_magic_def)

lemma verify_file_no_file:
  "fs path = None \<Longrightarrow>
   verify_file N SHA RSA fs path keys = ([Set_progress 0], Inr VERIFY_FAILURE)"
  by (simp add: verify_file_def)

lemma verify_file_rejected:
  "fs path = Some bs \<Longrightarrow> \<not> footer_checks N bs \<Longrightarrow>
   verify_file N SHA RSA fs path keys = ([Set_progress 0], Inr VERIFY_FAILURE)"
  by (auto simp: verify_file_def footer_checks_def Let_def)

lemma signed_len_le:
  "eocd_size bs \<le> length bs \<Longrightarrow> signed_len bs + 2 \<le> length bs"
  by (simp add: signed_len_def eocd_size_def EOCD_HEADER_SIZE_def)

lemma hash_loop_all:
  "eocd_size bs \<le> length bs \<Longrightarrow>
   snd (hash_loop bs (signed_len bs) 0 fr [] :: 'k event list \<times> byte list option) =
   Some (take (signed_len bs) bs)"
  using hash_loop_ctx [of 0 "signed_len bs" bs fr "[]"] signed_len_le [of bs] by simp

lemma verify_file_checked:
  fixes keys :: "'k list"
  assumes "fs path = Some bs" and "footer_checks N bs"
  shows "verify_file N SHA RSA fs path keys =
         (Set_progress 0 #
            fst (hash_loop bs (signed_len bs) 0 (- 1) [] :: 'k event list \<times> byte list option) @
            fst (try_keys RSA keys (signature_of N (read_eocd bs)) (SHA (take (signed_len bs) bs))),
          snd (try_keys RSA keys (signature_of N (read_eocd bs)) (SHA (take (signed_len bs) bs))))"
proof -
  have e: "eocd_size bs \<le> length bs" using assms(2) by (simp add: footer_checks_def)
  obtain evs where h: "(hash_loop bs (signed_len bs) 0 (- 1) [] :: 'k event list \<times> byte list option) =
      (evs, Some (take (signed_len bs) bs))"
    using hash_loop_all [OF e, of "- 1"] by (metis prod.collapse)
  show ?thesis
    using assms by (simp add: verify_file_def footer_checks_def Let_def h split_beta)
qed

lemma rsa_calls_append: "rsa_calls (xs @ ys) = rsa_calls xs @ rsa_calls ys"
  by (induction xs rule: rsa_calls.induct) auto

lemma hash_loop_rsa_calls:
  "rsa_calls (fst (hash_loop bs slen so_far fr ctx :: 'k event list \<times> byte list option)) = []"
proof (induction bs slen so_far fr ctx rule: hash_loop.induct)
  case (1 bs slen so_far fr ctx)
  show ?case
  proof (cases "so_far < slen")
    case False
    then show ?thesis by (simp add: hash_loop_done)
  next
    case True
    show ?thesis
      using "1.IH" [OF True refl refl _ refl refl refl]
      by (subst hash_loop_step [OF True]) (auto simp: rsa_calls_append)
  qed
qed


lemma try_keys_None_calls: "rsa_calls (fst (try_keys R ks None d)) = []"
  by (cases ks) auto

lemma read_eocd_length: "eocd_size bs \<le> length bs \<Longrightarrow> length (read_eocd bs) = eocd_size bs"
  by (simp add: read_eocd_def)

lemma signature_of_file:
  assumes "eocd_size bs \<le> length bs" and "N + 6 \<le> eocd_size bs"
  shows "signature_of N (read_eocd bs) = Some (take N (drop (length bs - 6 - N) bs))"
proof -
  have "(eocd_size bs - 6 - N) + (length bs - eocd_size bs) = length bs - 6 - N"
    using assms by simp
  then show ?thesis
    using assms by (simp add: signature_of_def read_eocd_length) (simp add: read_eocd_def)
qed

lemma signature_of_short:
  "eocd_size bs \<le> length bs \<Longrightarrow> \<not> N + 6 \<le> eocd_size bs \<Longrightarrow>
   signature_of N (read_eocd bs) = None"
  by (simp add: signature_of_def read_eocd_length)

lemma take4_magic0:
  assumes "4 \<le> length xs"
  shows "take 4 xs = eocd_magic \<longleftrightarrow>
         (xs ! 0 = 0x50 \<and> xs ! 1 = 0x4b \<and> xs ! 2 = 0x05 \<and> xs ! 3 = 0x06)"
proof -
  from assms obtain a b c d r where "xs = a # b # c # d # r"
    by (auto simp: numeral_eq_Suc Suc_le_length_iff)
  then show ?thesis by (simp add: eocd_magic_def)
qed

text \<open>
  Claim C7. For a file that can be opened, \<open>verify_file\<close> returns \<open>VERIFY_FAILURE\<close>
  whenever bytes 2 and 3 of the footer are not both \<open>0xff\<close>, and whenever the start of the
  signature minus the six bytes of the footer is less than \<open>RSANUMBYTES\<close>. In both cases
  the only event is the first call of \<open>ui_set_progress\<close>: nothing is hashed and no
  signature is checked.
\<close>

theorem footer_rejected:
  assumes "fs path = Some bs"
  shows "(read_footer bs ! 2 \<noteq> 0xff \<or> read_footer bs ! 3 \<noteq> 0xff \<longrightarrow>
            verify_file N SHA RSA fs path keys = ([Set_progress 0], Inr VERIFY_FAILURE)) \<and>
         (int (signature_start (read_footer bs)) - 6 < int N \<longrightarrow>
            verify_file N SHA RSA fs path keys = ([Set_progress 0], Inr VERIFY_FAILURE))"
proof (intro conjI impI)
  assume "read_footer bs ! 2 \<noteq> 0xff \<or> read_footer bs ! 3 \<noteq> 0xff"
  then have "\<not> footer_checks N bs" by (auto simp: footer_checks_def)
  then show "verify_file N SHA RSA fs path keys = ([Set_progress 0], Inr VERIFY_FAILURE)"
    by (rule verify_file_rejected [where fs = fs and path = path, OF assms])
next
  assume "int (signature_start (read_footer bs)) - 6 < int N"
  then have "\<not> footer_checks N bs" by (auto simp: footer_checks_def FOOTER_SIZE_def)
  then show "verify_file N SHA RSA fs path keys = ([Set_progress 0], Inr VERIFY_FAILURE)"
    by (rule verify_file_rejected [where fs = fs and path = path, OF assms])
qed

theorem footer_rejected_witness:
  "read_footer unmarked_file ! 3 \<noteq> 0xff \<and>
   verify_file 256 toy_sha toy_rsa [''update.zip'' \<mapsto> unmarked_file] ''update.zip'' [0xAA] =
     ([Set_progress 0], Inr VERIFY_FAILURE) \<and>
   int (signature_start (read_footer short_file)) - 6 < 256 \<and>
   verify_file 256 toy_sha toy_rsa [''update.zip'' \<mapsto> short_file] ''update.zip'' [0xAA] =
     ([Set_progress 0], Inr VERIFY_FAILURE)"
proof -
  have a: "read_footer unmarked_file ! 3 \<noteq> 0xff" by code_simp
  have b: "int (signature_start (read_footer short_file)) - 6 < int 256" by code_simp
  have f: "[''update.zip'' \<mapsto> bs] ''update.zip'' = Some bs" for bs :: "byte list" by simp
  show ?thesis
    using footer_rejected [where fs = "[''update.zip'' \<mapsto> unmarked_file]"
        and path = "''update.zip''" and N = 256 and SHA = toy_sha and RSA = toy_rsa
        and keys = "[0xAA]", OF f]
      footer_rejected [where fs = "[''update.zip'' \<mapsto> short_file]"
        and path = "''update.zip''" and N = 256 and SHA = toy_sha and RSA = toy_rsa
        and keys = "[0xAA]", OF f] a b
    by simp
qed

text \<open>
  Claim C3. For a file that can be opened, \<open>verify_file\<close> returns \<open>VERIFY_FAILURE\<close>
  when the marker \<open>50 4B 05 06\<close> occurs in the trailing \<open>comment_size + 22\<close> bytes at an
  offset \<open>i\<close> with \<open>4 \<le> i\<close> and \<open>i + 4 \<le> eocd_size\<close> (every offset from 4 at which four
  bytes are left), whatever \<open>RSA_verify\<close> answers, and when these bytes do not begin with
  the marker.
\<close>

theorem hostile_eocd_rejected:
  assumes "fs path = Some bs"
  shows "(\<forall>i. 4 \<le> i \<and> i + 4 \<le> eocd_size bs \<and> take 4 (drop i (read_eocd bs)) = eocd_magic \<longrightarrow>
            verify_file N SHA RSA fs path keys = ([Set_progress 0], Inr VERIFY_FAILURE)) \<and>
         (take 4 (read_eocd bs) \<noteq> eocd_magic \<longrightarrow>
            verify_file N SHA RSA fs path keys = ([Set_progress 0], Inr VERIFY_FAILURE))"
proof (cases "footer_checks N bs")
  case False
  then show ?thesis
    using verify_file_rejected [where fs = fs and path = path and keys = keys and RSA = RSA,
        OF assms False] by simp
next
  case True
  then have len: "length (read_eocd bs) = eocd_size bs"
    by (simp add: footer_checks_def read_eocd_length)
  have big: "22 \<le> eocd_size bs" by (simp add: eocd_size_def EOCD_HEADER_SIZE_def)
  have no: "\<not> (4 \<le> i \<and> i + 4 \<le> eocd_size bs \<and> take 4 (drop i (read_eocd bs)) = eocd_magic)" for i
  proof
    assume h: "4 \<le> i \<and> i + 4 \<le> eocd_size bs \<and> take 4 (drop i (read_eocd bs)) = eocd_magic"
    then have "read_eocd bs ! i = 0x50 \<and> read_eocd bs ! (i + 1) = 0x4b \<and>
               read_eocd bs ! (i + 2) = 0x05 \<and> read_eocd bs ! (i + 3) = 0x06"
      using take4_magic [of i "read_eocd bs"] len by simp
    moreover have "i < length (read_eocd bs) - 3" using h len by linarith
    ultimately have "marker_after (read_eocd bs) 4"
      using h by (subst marker_after_iff) blast
    then show False using True by (simp add: footer_checks_def)
  qed
  have "4 \<le> length (read_eocd bs)" using len big by simp
  then have first: "take 4 (read_eocd bs) = eocd_magic"
    using True unfolding footer_checks_def by (subst take4_magic0) blast+
  show ?thesis using no first by blast
qed

theorem hostile_eocd_rejected_witness:
  "take 4 (drop 22 (read_eocd hostile_file)) = eocd_magic \<and>
   toy_rsa 0xAA (take 256 (drop (length hostile_file - 6 - 256) hostile_file))
     (toy_sha (take (signed_len hostile_file) hostile_file)) \<and>
   verify_file 256 toy_sha toy_rsa [''update.zip'' \<mapsto> hostile_file] ''update.zip'' [0xAA] =
     ([Set_progress 0], Inr VERIFY_FAILURE)"
proof -
  have a: "take 4 (drop 22 (read_eocd hostile_file)) = eocd_magic" by code_simp
  have b: "toy_rsa 0xAA (take 256 (drop (length hostile_file - 6 - 256) hostile_file))
     (toy_sha (take (signed_len hostile_file) hostile_file))" by code_simp
  have c: "(4::nat) \<le> 22 \<and> 22 + 4 \<le> eocd_size hostile_file" by code_simp
  have f: "[''update.zip'' \<mapsto> hostile_file] ''update.zip'' = Some hostile_file" by simp
  show ?thesis
    using hostile_eocd_rejected [where fs = "[''update.zip'' \<mapsto> hostile_file]"
        and path = "''update.zip''" and N = 256 and SHA = toy_sha and RSA = toy_rsa
        and keys = "[0xAA]", OF f] a b c by blast
qed


lemma verify_file_status:
  fixes keys :: "'k list"
  assumes "fs path = Some bs" and "footer_checks N bs" and "N + 6 \<le> eocd_size bs"
  shows "snd (verify_file N SHA RSA fs path keys) =
         Inr (if list_ex (\<lambda>k. RSA k (take N (drop (length bs - 6 - N) bs))
                                  (SHA (take (signed_len bs) bs))) keys
              then VERIFY_SUCCESS else VERIFY_FAILURE)"
proof -
  have e: "eocd_size bs \<le> length bs" using assms(2) by (simp add: footer_checks_def)
  show ?thesis
    by (simp only: verify_file_checked [where fs = fs and path = path, OF assms(1,2)]
          signature_of_file [OF e assms(3)] snd_conv try_keys_Some)
qed

lemma verify_file_fault:
  fixes keys :: "'k list"
  assumes "fs path = Some bs" and "footer_checks N bs" and "\<not> N + 6 \<le> eocd_size bs"
  shows "snd (verify_file N SHA RSA fs path keys) =
         (if keys = [] then Inr VERIFY_FAILURE else Inl Read_before_buffer)"
    and "rsa_calls (fst (verify_file N SHA RSA fs path keys)) = []"
proof -
  have e: "eocd_size bs \<le> length bs" using assms(2) by (simp add: footer_checks_def)
  show "snd (verify_file N SHA RSA fs path keys) =
         (if keys = [] then Inr VERIFY_FAILURE else Inl Read_before_buffer)"
    by (simp only: verify_file_checked [where fs = fs and path = path, OF assms(1,2)]
          signature_of_short [OF e assms(3)] snd_conv try_keys_None)
  show "rsa_calls (fst (verify_file N SHA RSA fs path keys)) = []"
    by (simp only: verify_file_checked [where fs = fs and path = path, OF assms(1,2)]
          signature_of_short [OF e assms(3)] fst_conv rsa_calls.simps rsa_calls_append
          hash_loop_rsa_calls try_keys_None_calls append_Nil)
qed







section \<open>Properties of \<open>verify_jar_signature\<close>\<close>

declare verifySignature_from.simps [simp del]

lemma verifySignature_from_None:
  "(\<And>j. i \<le> j \<Longrightarrow> j < length A \<Longrightarrow> verifySignature_entry N SHA RSA A keys j = None) \<Longrightarrow>
   verifySignature_from N SHA RSA A keys i = None"
proof (induction N SHA RSA A keys i rule: verifySignature_from.induct)
  case (1 N SHA RSA A keys i)
  show ?case
  proof (cases "i < length A")
    case False
    then show ?thesis by (subst verifySignature_from.simps) simp
  next
    case True
    have n: "verifySignature_entry N SHA RSA A keys i = None" using "1.prems" True by simp
    have "verifySignature_from N SHA RSA A keys (i + 1) = None"
      using "1.IH" [OF True n] "1.prems" by simp
    then show ?thesis using True n by (subst verifySignature_from.simps) simp
  qed
qed

lemma verifySignature_from_Some:
  "verifySignature_from N SHA RSA A keys i = Some sf \<Longrightarrow>
   \<exists>j. i \<le> j \<and> j < length A \<and> verifySignature_entry N SHA RSA A keys j = Some sf \<and>
       (\<forall>l. i \<le> l \<and> l < j \<longrightarrow> verifySignature_entry N SHA RSA A keys l = None)"
proof (induction N SHA RSA A keys i rule: verifySignature_from.induct)
  case (1 N SHA RSA A keys i)
  show ?case
  proof (cases "i < length A")
    case False
    then show ?thesis using "1.prems" by (subst (asm) verifySignature_from.simps) simp
  next
    case True
    show ?thesis
    proof (cases "verifySignature_entry N SHA RSA A keys i")
      case (Some sf')
      then have "sf' = sf"
        using "1.prems" True by (subst (asm) verifySignature_from.simps) simp
      then show ?thesis using Some True by (intro exI [of _ i]) auto
    next
      case None
      then have "verifySignature_from N SHA RSA A keys (i + 1) = Some sf"
        using "1.prems" True by (subst (asm) verifySignature_from.simps) simp
      from "1.IH" [OF True None this]
      obtain j where j: "i + 1 \<le> j" "j < length A"
        "verifySignature_entry N SHA RSA A keys j = Some sf"
        "\<forall>l. i + 1 \<le> l \<and> l < j \<longrightarrow> verifySignature_entry N SHA RSA A keys l = None"
        by blast
      have "\<forall>l. i \<le> l \<and> l < j \<longrightarrow> verifySignature_entry N SHA RSA A keys l = None"
      proof (intro allI impI)
        fix l assume l: "i \<le> l \<and> l < j"
        show "verifySignature_entry N SHA RSA A keys l = None"
        proof (cases "l = i")
          case True then show ?thesis using None by simp
        next
          case False then show ?thesis using l j(4) by simp
        qed
      qed
      then show ?thesis using j by (intro exI [of _ j]) auto
    qed
  qed
qed

lemma verifySignature_entry_no_keys: "verifySignature_entry N SHA RSA A [] i = None"
  by (simp add: verifySignature_entry_def Let_def split: option.splits)

lemma verifySignature_no_keys: "verifySignature N SHA RSA A [] = None"
  unfolding verifySignature_def
  by (rule verifySignature_from_None) (rule verifySignature_entry_no_keys)

text \<open>
  Claim C10. With no key, \<open>verify_file\<close> returns \<open>VERIFY_FAILURE\<close> for every path and
  \<open>verify_jar_signature\<close> returns false for every archive.
\<close>

theorem empty_key_set_fails:
  "snd (verify_file N SHA RSA fs path []) = Inr VERIFY_FAILURE \<and>
   \<not> snd (verify_jar_signature N' SHA' RSA' b64_pton pArchive [])"
proof
  show "snd (verify_file N SHA RSA fs path []) = Inr VERIFY_FAILURE"
  proof (cases "fs path")
    case None
    then show ?thesis
      by (simp add: verify_file_no_file [where fs = fs and path = path and RSA = RSA])
  next
    case (Some bs)
    show ?thesis
    proof (cases "footer_checks N bs")
      case False
      then show ?thesis
        by (simp add: verify_file_rejected [where fs = fs and path = path and RSA = RSA,
              OF Some False])
    next
      case True
      show ?thesis
      proof (cases "N + 6 \<le> eocd_size bs")
        case le: True
        show ?thesis
          by (simp add: verify_file_status [where fs = fs and path = path and RSA = RSA,
                OF Some True le])
      next
        case gt: False
        show ?thesis
          by (simp add: verify_file_fault(1) [where fs = fs and path = path and RSA = RSA,
                OF Some True gt])
      qed
    qed
  qed
next
  show "\<not> snd (verify_jar_signature N' SHA' RSA' b64_pton pArchive [])"
    by (simp add: verify_jar_signature_def verifySignature_no_keys)
qed

theorem empty_key_set_fails_witness:
  "snd (verify_file 256 toy_sha toy_rsa [''update.zip'' \<mapsto> good_file] ''update.zip'' []) =
     Inr VERIFY_FAILURE \<and>
   \<not> snd (verify_jar_signature 256 jar_sha jar_rsa jar_b64 (jar_of mf_text) [])"
  by (rule empty_key_set_fails)

lemma mzFindZipEntry_Some:
  assumes "mzFindZipEntry A nm = Some i"
  shows "i < length A" and "fileName (A ! i) = nm"
proof -
  from assms obtain rest where "filter (\<lambda>i. fileName (A ! i) = nm) [0..<length A] = i # rest"
    by (auto simp: mzFindZipEntry_def split: list.splits)
  then have "i \<in> set (filter (\<lambda>i. fileName (A ! i) = nm) [0..<length A])" by simp
  then show "i < length A" and "fileName (A ! i) = nm" by auto
qed

lemma foldl_flags:
  "k \<le> n \<Longrightarrow>
   fst (foldl (\<lambda>(unv, t) i. if P i then (unv[i := True], g t i) else (unv, t))
          (replicate n False, t0) [0..<k]) =
   map (\<lambda>i. i < k \<and> P i) [0..<n]"
proof (induction k)
  case 0
  show ?case by (simp add: list_eq_iff_nth_eq)
next
  case (Suc k)
  define r where "r = foldl (\<lambda>(unv, t) i. if P i then (unv[i := True], g t i) else (unv, t))
          (replicate n False, t0) [0..<k]"
  have ih: "fst r = map (\<lambda>i. i < k \<and> P i) [0..<n]" using Suc by (simp add: r_def)
  have k: "k < n" using Suc.prems by simp
  have "fst (foldl (\<lambda>(unv, t) i. if P i then (unv[i := True], g t i) else (unv, t))
          (replicate n False, t0) [0..<Suc k]) =
        (if P k then (fst r)[k := True] else fst r)"
    by (simp add: r_def [symmetric] split_beta)
  also have "\<dots> = map (\<lambda>i. i < Suc k \<and> P i) [0..<n]"
  proof (rule nth_equalityI)
    show "length (if P k then (fst r)[k := True] else fst r) =
          length (map (\<lambda>i. i < Suc k \<and> P i) [0..<n])" by (simp add: ih)
  next
    fix i assume "i < length (if P k then (fst r)[k := True] else fst r)"
    then have i: "i < n" by (simp add: ih split: if_splits)
    show "(if P k then (fst r)[k := True] else fst r) ! i =
          map (\<lambda>i. i < Suc k \<and> P i) [0..<n] ! i"
      using i k by (auto simp: ih nth_list_update less_Suc_eq)
  qed
  finally show ?case .
qed

lemma mark_entries_flags:
  "fst (mark_entries A mf) = map (needs_digest A mf) [0..<length A]"
proof -
  have "fst (mark_entries A mf) = map (\<lambda>i. i < length A \<and> needs_digest A mf i) [0..<length A]"
    unfolding mark_entries_def by (rule foldl_flags) simp
  also have "\<dots> = map (needs_digest A mf) [0..<length A]" by simp
  finally show ?thesis .
qed

lemma tolower_prefixes:
  "map tolower (take (Suc 0) (c_str ''Name: '')) = ''n''"
  "map tolower (take (Suc 0) (c_str '' '')) = '' ''"
  "map tolower (take (Suc 0) (c_str ''SHA1-Digest: '')) = ''s''"
  by code_simp+

lemma strncasecmp_first:
  assumes "strncasecmp_eq a b n" and "1 \<le> n"
  shows "map tolower (take 1 (c_str a)) = map tolower (take 1 (c_str b))"
proof -
  have "take 1 (map tolower (take n (c_str a))) = take 1 (map tolower (take n (c_str b)))"
    using assms(1) by (simp add: strncasecmp_eq_def)
  then show ?thesis using assms(2) by (simp add: take_map min_def)
qed

lemma digest_line_exclusive:
  assumes "strncasecmp_eq line ''SHA1-Digest: '' 13"
  shows "\<not> strncasecmp_eq line ''Name: '' 6" and "\<not> strncasecmp_eq line '' '' 1"
proof -
  have s: "map tolower (take 1 (c_str line)) = ''s''"
    using strncasecmp_first [OF assms] by (simp add: tolower_prefixes)
  show "\<not> strncasecmp_eq line ''Name: '' 6"
  proof
    assume "strncasecmp_eq line ''Name: '' 6"
    from strncasecmp_first [OF this] have "map tolower (take 1 (c_str line)) = ''n''"
      by (simp add: tolower_prefixes)
    then show False using s by simp
  qed
  show "\<not> strncasecmp_eq line '' '' 1"
  proof
    assume "strncasecmp_eq line '' '' 1"
    from strncasecmp_first [OF this] have "map tolower (take 1 (c_str line)) = '' ''"
      by (simp add: tolower_prefixes)
    then show False using s by simp
  qed
qed

lemma manifest_line_cases:
  assumes "manifest_line b64 SHA A tot st line = (st', b)"
  shows "(unverified st' = unverified st \<and> verified st' = verified st \<and>
          (strncasecmp_eq line ''SHA1-Digest: '' 13 \<longrightarrow> b \<or>
             strncasecmp_eq line ''Name: '' 6 \<or> strncasecmp_eq line '' '' 1)) \<or>
         (\<exists>nm entry expected actual.
            \<not> b \<and> strncasecmp_eq line ''SHA1-Digest: '' 13 \<and>
            name st = Some nm \<and> mzFindZipEntry A nm = Some entry \<and>
            intact (A ! entry) \<and> unverified st ! entry \<and>
            b64 (drop 13 line) (SHA_DIGEST_SIZE + 3) = (int SHA_DIGEST_SIZE, expected) \<and>
            digestEntry SHA A entry = Some actual \<and>
            take SHA_DIGEST_SIZE expected = take SHA_DIGEST_SIZE actual \<and>
            unverified st' = (unverified st)[entry := False] \<and>
            name st' = None \<and>
            verified st' = verified st @ [(nm, drop 13 line, entry)])"
  using assms
  by (auto simp: manifest_line_def Let_def digestEntry_progress_def
           split: if_splits option.splits prod.splits)

lemma manifest_loop_inv:
  assumes "P st"
    and "\<And>s l s' b. P s \<Longrightarrow> manifest_line b64 SHA A tot s l = (s', b) \<Longrightarrow> P s'"
  shows "P (fst (manifest_loop b64 SHA A tot st lines))"
  using assms(1)
proof (induction lines arbitrary: st)
  case Nil
  then show ?case by simp
next
  case (Cons l lines)
  obtain s' b where step: "manifest_line b64 SHA A tot st l = (s', b)" by (cases "manifest_line b64 SHA A tot st l")
  have p: "P s'" using assms(2) [OF Cons.prems step] .
  show ?case
  proof (cases b)
    case True
    then show ?thesis using step p by simp
  next
    case False
    then show ?thesis using step Cons.IH [OF p] by simp
  qed
qed

lemma manifest_loop_digests:
  "manifest_loop b64 SHA A tot st lines = (st', False) \<Longrightarrow>
   map (\<lambda>s. fst (snd s)) (verified st') =
     map (\<lambda>s. fst (snd s)) (verified st) @
     map (drop 13) (filter (\<lambda>l. strncasecmp_eq l ''SHA1-Digest: '' 13) lines) \<and>
   (\<forall>l \<in> set lines. strncasecmp_eq l ''SHA1-Digest: '' 13 \<longrightarrow>
      fst (b64 (drop 13 l) (SHA_DIGEST_SIZE + 3)) = int SHA_DIGEST_SIZE)"
proof (induction lines arbitrary: st)
  case Nil
  then show ?case by simp
next
  case (Cons l lines)
  obtain s1 b where step: "manifest_line b64 SHA A tot st l = (s1, b)"
    by (cases "manifest_line b64 SHA A tot st l")
  have b: "\<not> b" using step Cons.prems by (cases b) auto
  then have rest: "manifest_loop b64 SHA A tot s1 lines = (st', False)"
    using step Cons.prems by simp
  have here: "map (\<lambda>s. fst (snd s)) (verified s1) =
        map (\<lambda>s. fst (snd s)) (verified st) @
        map (drop 13) (filter (\<lambda>l. strncasecmp_eq l ''SHA1-Digest: '' 13) [l])"
    using manifest_line_cases [OF step] b digest_line_exclusive [of l] by auto
  have dec: "strncasecmp_eq l ''SHA1-Digest: '' 13 \<longrightarrow>
         fst (b64 (drop 13 l) (SHA_DIGEST_SIZE + 3)) = int SHA_DIGEST_SIZE"
    using manifest_line_cases [OF step] b digest_line_exclusive [of l] by auto
  show ?case using Cons.IH [OF rest] here dec by auto
qed

lemma verifyArchive_True:
  assumes "snd (verifyArchive b64 SHA A mf)"
  shows "slurpEntry A mf = Some (concat (chunks (A ! mf)))"
    and "manifest_loop b64 SHA A (snd (mark_entries A mf))
           \<lparr>unverified = fst (mark_entries A mf), doneBytes = 0, name = None,
            progress = [], verified = []\<rparr>
           (strtok_r (c_str (concat (chunks (A ! mf))))) =
         (fst (verifyArchive b64 SHA A mf), False)"
    and "\<not> list_ex (\<lambda>b. b) (unverified (fst (verifyArchive b64 SHA A mf)))"
proof -
  obtain mfBuf where buf: "slurpEntry A mf = Some mfBuf"
    using assms by (cases "slurpEntry A mf") (auto simp: verifyArchive_def)
  then have mfBuf: "mfBuf = concat (chunks (A ! mf))"
    by (auto simp: slurpEntry_def mzReadZipEntry_def split: if_splits)
  show "slurpEntry A mf = Some (concat (chunks (A ! mf)))" using buf mfBuf by simp
  obtain st broke where loop: "manifest_loop b64 SHA A (snd (mark_entries A mf))
           \<lparr>unverified = fst (mark_entries A mf), doneBytes = 0, name = None,
            progress = [], verified = []\<rparr>
           (strtok_r (c_str (concat (chunks (A ! mf))))) = (st, broke)"
    by (metis prod.collapse)
  have va: "verifyArchive b64 SHA A mf =
            (st, if broke then False else if list_ex (\<lambda>b. b) (unverified st) then False else True)"
    using buf mfBuf loop by (simp add: verifyArchive_def split_beta)
  then have "\<not> broke" and "\<not> list_ex (\<lambda>b. b) (unverified st)" using assms by (auto split: if_splits)
  then show "manifest_loop b64 SHA A (snd (mark_entries A mf))
           \<lparr>unverified = fst (mark_entries A mf), doneBytes = 0, name = None,
            progress = [], verified = []\<rparr>
           (strtok_r (c_str (concat (chunks (A ! mf))))) =
         (fst (verifyArchive b64 SHA A mf), False)"
    and "\<not> list_ex (\<lambda>b. b) (unverified (fst (verifyArchive b64 SHA A mf)))"
    using loop va by simp_all
qed

declare strtok_r.simps [simp del]

lemma count_distinct_map:
  "distinct (map f xs) \<Longrightarrow>
   length (filter (\<lambda>x. f x = i) xs) = (if i \<in> f ` set xs then 1 else 0)"
  by (induction xs) auto

lemma verifyArchive_coverage:
  assumes ok: "snd (verifyArchive b64 SHA A mf)"
  shows "distinct (map (\<lambda>s. snd (snd s)) (verified (fst (verifyArchive b64 SHA A mf)))) \<and>
         (\<forall>i<length A. needs_digest A mf i \<longleftrightarrow>
            i \<in> (\<lambda>s. snd (snd s)) ` set (verified (fst (verifyArchive b64 SHA A mf)))) \<and>
         (\<forall>s \<in> set (verified (fst (verifyArchive b64 SHA A mf))).
            snd (snd s) < length A \<and>
            mzFindZipEntry A (fst s) = Some (snd (snd s)) \<and>
            intact (A ! snd (snd s)) \<and>
            (\<exists>expected. b64 (fst (snd s)) (SHA_DIGEST_SIZE + 3) = (int SHA_DIGEST_SIZE, expected) \<and>
               take SHA_DIGEST_SIZE expected =
               take SHA_DIGEST_SIZE (SHA (concat (chunks (A ! snd (snd s)))))))"
proof -
  define Q where "Q = (\<lambda>s :: string \<times> string \<times> nat.
            snd (snd s) < length A \<and>
            mzFindZipEntry A (fst s) = Some (snd (snd s)) \<and>
            intact (A ! snd (snd s)) \<and>
            (\<exists>expected. b64 (fst (snd s)) (SHA_DIGEST_SIZE + 3) = (int SHA_DIGEST_SIZE, expected) \<and>
               take SHA_DIGEST_SIZE expected =
               take SHA_DIGEST_SIZE (SHA (concat (chunks (A ! snd (snd s)))))))"
  define I where "I = (\<lambda>s :: manifest_state. length (unverified s) = length A \<and>
      distinct (map (\<lambda>s. snd (snd s)) (verified s)) \<and>
      (\<forall>i<length A. unverified s ! i \<longleftrightarrow>
         needs_digest A mf i \<and> i \<notin> (\<lambda>s. snd (snd s)) ` set (verified s)) \<and>
      (\<forall>x \<in> set (verified s). Q x \<and> needs_digest A mf (snd (snd x))))"
  let ?ini = "\<lparr>unverified = fst (mark_entries A mf), doneBytes = 0, name = None,
            progress = [], verified = []\<rparr>"
  let ?st = "fst (verifyArchive b64 SHA A mf)"
  have init: "I ?ini" by (simp add: I_def mark_entries_flags)
  have step: "I s'" if i: "I s"
    and l: "manifest_line b64 SHA A (snd (mark_entries A mf)) s l = (s', b)" for s l s' b
    using manifest_line_cases [OF l]
  proof (elim disjE exE conjE)
    assume "unverified s' = unverified s" "verified s' = verified s"
    then show ?thesis using i by (simp add: I_def)
  next
    fix nm entry expected actual
    assume a: "mzFindZipEntry A nm = Some entry" "intact (A ! entry)" "unverified s ! entry"
      "b64 (drop 13 l) (SHA_DIGEST_SIZE + 3) = (int SHA_DIGEST_SIZE, expected)"
      "digestEntry SHA A entry = Some actual"
      "take SHA_DIGEST_SIZE expected = take SHA_DIGEST_SIZE actual"
      "unverified s' = (unverified s)[entry := False]"
      "verified s' = verified s @ [(nm, drop 13 l, entry)]"
    have e: "entry < length A" using mzFindZipEntry_Some(1) [OF a(1)] .
    have act: "actual = SHA (concat (chunks (A ! entry)))"
      using a(5) by (auto simp: digestEntry_def split: if_splits)
    have fresh: "needs_digest A mf entry" "entry \<notin> (\<lambda>s. snd (snd s)) ` set (verified s)"
      using i e a(3) by (auto simp: I_def)
    have q: "Q (nm, drop 13 l, entry)"
      using a e act by (simp add: Q_def)
    have flags: "\<forall>i<length A. unverified s' ! i \<longleftrightarrow>
         needs_digest A mf i \<and> i \<notin> (\<lambda>s. snd (snd s)) ` set (verified s')"
    proof (intro allI impI)
      fix i assume "i < length A"
      then show "unverified s' ! i \<longleftrightarrow>
         needs_digest A mf i \<and> i \<notin> (\<lambda>s. snd (snd s)) ` set (verified s')"
        using i a(7,8) e by (cases "i = entry") (auto simp: I_def nth_list_update)
    qed
    show ?thesis
      unfolding I_def
    proof (intro conjI)
      show "length (unverified s') = length A" using i a(7) by (simp add: I_def)
      show "distinct (map (\<lambda>s. snd (snd s)) (verified s'))"
        using i a(8) fresh(2) by (simp add: I_def)
      show "\<forall>i<length A. unverified s' ! i \<longleftrightarrow>
         needs_digest A mf i \<and> i \<notin> (\<lambda>s. snd (snd s)) ` set (verified s')" by (rule flags)
      show "\<forall>x \<in> set (verified s'). Q x \<and> needs_digest A mf (snd (snd x))"
        using i a(8) q fresh(1) by (auto simp: I_def)
    qed
  qed
  have "I (fst (manifest_loop b64 SHA A (snd (mark_entries A mf)) ?ini
                 (strtok_r (c_str (concat (chunks (A ! mf)))))))"
    by (rule manifest_loop_inv [where P = I, OF init step])
  then have fin: "I ?st" by (simp only: verifyArchive_True(2) [OF ok] fst_conv)
  have clear: "\<not> unverified ?st ! i" if "i < length A" for i
  proof -
    have "i < length (unverified ?st)" using fin that by (simp add: I_def)
    then have "unverified ?st ! i \<in> set (unverified ?st)" by simp
    then show ?thesis using verifyArchive_True(3) [OF ok] by (auto simp: list_ex_iff)
  qed
  have cover: "\<forall>i<length A. needs_digest A mf i \<longleftrightarrow>
            i \<in> (\<lambda>s. snd (snd s)) ` set (verified ?st)"
  proof (intro allI impI)
    fix i assume i: "i < length A"
    show "needs_digest A mf i \<longleftrightarrow> i \<in> (\<lambda>s. snd (snd s)) ` set (verified ?st)"
    proof
      assume "needs_digest A mf i"
      then show "i \<in> (\<lambda>s. snd (snd s)) ` set (verified ?st)"
        using fin clear [OF i] i by (auto simp: I_def)
    next
      assume "i \<in> (\<lambda>s. snd (snd s)) ` set (verified ?st)"
      then show "needs_digest A mf i" using fin by (auto simp: I_def)
    qed
  qed
  show ?thesis
  proof (intro conjI)
    show "distinct (map (\<lambda>s. snd (snd s)) (verified ?st))" using fin by (simp add: I_def)
    show "\<forall>i<length A. needs_digest A mf i \<longleftrightarrow>
            i \<in> (\<lambda>s. snd (snd s)) ` set (verified ?st)" by (rule cover)
    show "\<forall>s \<in> set (verified ?st).
            snd (snd s) < length A \<and>
            mzFindZipEntry A (fst s) = Some (snd (snd s)) \<and>
            intact (A ! snd (snd s)) \<and>
            (\<exists>expected. b64 (fst (snd s)) (SHA_DIGEST_SIZE + 3) = (int SHA_DIGEST_SIZE, expected) \<and>
               take SHA_DIGEST_SIZE expected =
               take SHA_DIGEST_SIZE (SHA (concat (chunks (A ! snd (snd s))))))"
      using fin by (simp add: I_def Q_def)
  qed
qed

end
